theory Spec2Isabelle
  imports Complex_Main
begin

section \<open>Utility functions of the d2l TensorFlow notebooks\<close>

text \<open>
  The definitions below embed the helper functions of the utilities notebook
  (\<^verbatim>\<open>Accumulator\<close>, \<^verbatim>\<open>truncate_pad\<close>, ...). Python exceptions are values of
  the type \<open>error\<close>; a function that can raise returns \<open>error + 'a\<close>.
\<close>

datatype error =
    AssertionError string
  | IndexError
  | KeyError string
  | ValueError
  | InvalidArgumentError
  | OSError
  | RequestException

subsection \<open>Python list primitives\<close>

text \<open>\<^verbatim>\<open>xs[:k]\<close> for a Python integer \<open>k\<close>: a negative \<open>k\<close> counts from the end.\<close>

definition slice_to :: "'a list \<Rightarrow> int \<Rightarrow> 'a list" where
  "slice_to xs k =
     (if k < 0 then take (nat (int (length xs) + k)) xs else take (nat k) xs)"

text \<open>\<^verbatim>\<open>[x] * k\<close>: the empty list when \<open>k \<le> 0\<close>.\<close>

definition repeat :: "'a \<Rightarrow> int \<Rightarrow> 'a list" where
  "repeat x k = replicate (nat k) x"

text \<open>\<^verbatim>\<open>xs[i]\<close>: negative indices count from the end, out of range raises.\<close>

definition index :: "'a list \<Rightarrow> int \<Rightarrow> error + 'a" where
  "index xs i =
     (if 0 \<le> i \<and> i < int (length xs) then Inr (xs ! nat i)
      else if i < 0 \<and> - int (length xs) \<le> i then Inr (xs ! nat (int (length xs) + i))
      else Inl IndexError)"

subsection \<open>Accumulator\<close>

text \<open>
  \<^verbatim>\<open>class Accumulator\<close>: the field \<^verbatim>\<open>data\<close> is a list of running sums. The slots
  hold Python floats; the model is generic in the number type, of which only
  \<open>0\<close> and \<open>+\<close> are used, so that no law of exact arithmetic is assumed. An
  argument of \<^verbatim>\<open>add\<close> is a value on which \<^verbatim>\<open>float\<close> succeeds.
\<close>

record 'a Accumulator =
  data :: "'a list"

definition init :: "int \<Rightarrow> 'a::{zero,plus} Accumulator" where
  "init n = \<lparr>data = repeat 0 n\<rparr>"

text \<open>\<^verbatim>\<open>[a + float(b) for a, b in zip(self.data, args)]\<close>\<close>

definition add :: "'a::{zero,plus} Accumulator \<Rightarrow> 'a list \<Rightarrow> 'a Accumulator" where
  "add self args = self\<lparr>data := map (\<lambda>(a, b). a + b) (zip (data self) args)\<rparr>"

definition reset :: "'a::{zero,plus} Accumulator \<Rightarrow> 'a Accumulator" where
  "reset self = self\<lparr>data := repeat 0 (int (length (data self)))\<rparr>"

definition getitem :: "'a Accumulator \<Rightarrow> int \<Rightarrow> error + 'a" where
  "getitem self idx = index (data self) idx"

text \<open>A sequence of method calls on one accumulator, run in order.\<close>

datatype 'a call = Add "'a list" | Reset

fun run_call :: "'a::{zero,plus} Accumulator \<Rightarrow> 'a call \<Rightarrow> 'a Accumulator" where
  "run_call self (Add args) = add self args"
| "run_call self Reset = reset self"

definition run_calls :: "'a::{zero,plus} Accumulator \<Rightarrow> 'a call list \<Rightarrow> 'a Accumulator" where
  "run_calls self cs = foldl run_call self cs"

subsection \<open>Padding and truncation\<close>

definition truncate_pad :: "'a list \<Rightarrow> int \<Rightarrow> 'a \<Rightarrow> 'a list" where
  "truncate_pad line num_steps padding_token =
     (if int (length line) > num_steps then slice_to line num_steps
      else line @ repeat padding_token (num_steps - int (length line)))"

subsection \<open>Python string and path primitives\<close>

text \<open>
  \<^verbatim>\<open>s.split()\<close> without a separator: skip whitespace, take the characters up to the
  next whitespace as one word, repeat. The parameter \<open>isspace\<close> is Python's
  \<^verbatim>\<open>str.isspace\<close> on one character; lines are lists over any character type.
\<close>

function str_split :: "('c \<Rightarrow> bool) \<Rightarrow> 'c list \<Rightarrow> 'c list list" where
  "str_split isspace s =
     (case dropWhile isspace s of
        [] \<Rightarrow> []
      | c # r \<Rightarrow> (c # takeWhile (\<lambda>x. \<not> isspace x) r)
                 # str_split isspace (dropWhile (\<lambda>x. \<not> isspace x) r))"
  by pat_completeness auto
termination
proof (relation "measure (\<lambda>(isspace, s). length s)")
  show "wf (measure (\<lambda>(isspace :: 'c \<Rightarrow> bool, s). length s))" by simp
next
  fix isspace :: "'c \<Rightarrow> bool" and s c r
  assume "dropWhile isspace s = c # r"
  then have "Suc (length r) \<le> length s"
    using length_dropWhile_le [of isspace s] by simp
  moreover have "length (dropWhile (\<lambda>x. \<not> isspace x) r) \<le> length r"
    by (rule length_dropWhile_le)
  ultimately show "((isspace, dropWhile (\<lambda>x. \<not> isspace x) r), (isspace, s))
      \<in> measure (\<lambda>(isspace, s). length s)"
    by simp
qed

declare str_split.simps [simp del]

text \<open>\<^verbatim>\<open>s.split(sep)\<close> for a one-character separator: never the empty list.\<close>

fun split_on :: "'a \<Rightarrow> 'a list \<Rightarrow> 'a list list" where
  "split_on sep [] = [[]]"
| "split_on sep (x # xs) =
     (if x = sep then [] # split_on sep xs
      else (case split_on sep xs of
              [] \<Rightarrow> [[x]]
            | w # ws \<Rightarrow> (x # w) # ws))"

text \<open>\<^verbatim>\<open>s.rfind(c)\<close>: the index of the last occurrence of \<open>c\<close>, or \<open>-1\<close>.\<close>

definition rfind :: "'a list \<Rightarrow> 'a \<Rightarrow> int" where
  "rfind s c =
     (if c \<in> set s then int (length s) - 1 - int (length (takeWhile (\<lambda>x. x \<noteq> c) (rev s)))
      else - 1)"

text \<open>
  \<^verbatim>\<open>os.path.splitext\<close> (POSIX): the extension starts at the last dot of the last
  path component, unless that component has only leading dots before it.
\<close>

definition splitext :: "string \<Rightarrow> string \<times> string" where
  "splitext p =
     (let sepIndex = rfind p CHR ''/''; dotIndex = rfind p CHR ''.''
      in if dotIndex > sepIndex
            \<and> (\<exists>k \<in> set [nat (sepIndex + 1)..<nat dotIndex]. p ! k \<noteq> CHR ''.'')
         then (take (nat dotIndex) p, drop (nat dotIndex) p)
         else (p, []))"

text \<open>\<^verbatim>\<open>os.path.dirname\<close> (POSIX).\<close>

definition dirname :: "string \<Rightarrow> string" where
  "dirname p =
     (let head = take (nat (rfind p CHR ''/'' + 1)) p
      in if head \<noteq> [] \<and> head \<noteq> replicate (length head) CHR ''/''
         then rev (dropWhile (\<lambda>c. c = CHR ''/'') (rev head))
         else head)"


subsection \<open>Archive extraction\<close>

text \<open>
  \<open>extract_archive\<close> is the function \<^verbatim>\<open>extract\<close>. It opens the archive with
  \<^verbatim>\<open>zipfile.ZipFile\<close> or \<^verbatim>\<open>tarfile.open\<close> and calls \<^verbatim>\<open>extractall\<close>. What the
  archive library does to the file system \<open>'w\<close>, or the exception it raises, is
  the parameter \<open>extractall\<close>: opener, archive path and target folder.
\<close>

datatype opener = ZipFile | TarOpen

type_synonym 'w extractor = "opener \<Rightarrow> string \<Rightarrow> string \<Rightarrow> 'w \<Rightarrow> error + 'w"

definition extract_archive :: "'w extractor \<Rightarrow> string \<Rightarrow> string option \<Rightarrow> 'w \<Rightarrow> error + 'w" where
  "extract_archive extractall filename folder w =
     (let base_dir = dirname filename;
          ext = snd (splitext filename)
      in if ext \<notin> set [''.zip'', ''.tar'', ''.gz'']
         then Inl (AssertionError ''Only support zip/tar files.'')
         else extractall (if ext = ''.zip'' then ZipFile else TarOpen) filename
                (case folder of None \<Rightarrow> base_dir | Some d \<Rightarrow> d) w)"

subsection \<open>Tokenization\<close>

text \<open>
  \<^verbatim>\<open>tokenize(lines, token='word')\<close>; the mode is a string, and the default is
  passed explicitly. \<^verbatim>\<open>list(line)\<close> is the list of one-character strings.
\<close>

definition tokenize :: "('c \<Rightarrow> bool) \<Rightarrow> 'c list list \<Rightarrow> string \<Rightarrow> error + 'c list list list" where
  "tokenize isspace lines token =
     (if token \<notin> set [''word'', ''char'']
      then Inl (AssertionError (''Unknown token type: '' @ token))
      else Inr (map (\<lambda>line. if token = ''word'' then str_split isspace line
                              else map (\<lambda>c. [c]) line) lines))"

text \<open>
  The words of the specification: a maximal whitespace-free substring of \<open>s\<close> is
  a non-empty slice \<open>s[i:j]\<close> without whitespace that is bounded on each side by
  whitespace or by an end of \<open>s\<close>. \<open>maximal_runs\<close> lists them from left to right;
  \<open>runs_at\<close> and \<open>runs_from\<close> are its parts by start position.
\<close>

definition maximal_run :: "('c \<Rightarrow> bool) \<Rightarrow> 'c list \<Rightarrow> nat \<Rightarrow> nat \<Rightarrow> bool" where
  "maximal_run isspace s i j \<longleftrightarrow>
     i < j \<and> j \<le> length s
     \<and> (\<forall>k \<in> {i..<j}. \<not> isspace (s ! k))
     \<and> (i = 0 \<or> isspace (s ! (i - 1)))
     \<and> (j = length s \<or> isspace (s ! j))"

definition maximal_runs :: "('c \<Rightarrow> bool) \<Rightarrow> 'c list \<Rightarrow> 'c list list" where
  "maximal_runs isspace s =
     [take (j - i) (drop i s).
        i \<leftarrow> [0..<length s], j \<leftarrow> [Suc i..<Suc (length s)], maximal_run isspace s i j]"


definition runs_at :: "('c \<Rightarrow> bool) \<Rightarrow> 'c list \<Rightarrow> nat \<Rightarrow> 'c list list" where
  "runs_at isspace s i =
     concat (map (\<lambda>j. if maximal_run isspace s i j then [take (j - i) (drop i s)] else [])
       [Suc i..<Suc (length s)])"

definition runs_from :: "('c \<Rightarrow> bool) \<Rightarrow> 'c list \<Rightarrow> nat \<Rightarrow> 'c list list" where
  "runs_from isspace s k = concat (map (runs_at isspace s) [k..<length s])"

subsection \<open>File download\<close>






subsection \<open>Minibatches for machine translation\<close>

text \<open>
  \<^verbatim>\<open>tf.constant\<close> on a list of rows needs rows of one length. A 32-bit sum
  wraps around. \<^verbatim>\<open>tf.reduce_sum(..., 1)\<close> needs a second axis, which the tensor of
  an empty list of rows does not have.
\<close>

definition tf_constant :: "'a list list \<Rightarrow> error + 'a list list" where
  "tf_constant rows =
     (if \<forall>r \<in> set rows. length r = length (hd rows) then Inr rows else Inl ValueError)"

definition int32 :: "int \<Rightarrow> int" where
  "int32 x = (x + 2 ^ 31) mod 2 ^ 32 - 2 ^ 31"

definition reduce_sum1 :: "int list list \<Rightarrow> error + int list" where
  "reduce_sum1 t =
     (if t = [] then Inl InvalidArgumentError else Inr (map (\<lambda>row. int32 (sum_list row)) t))"

text \<open>
  The vocabulary is the function from a token to its index
  (\<^verbatim>\<open>vocab[token]\<close>; \<^verbatim>\<open>vocab[tokens]\<close> maps it over a list).
\<close>

definition build_array_nmt ::
  "(string \<Rightarrow> int) \<Rightarrow> string list list \<Rightarrow> int \<Rightarrow> error + int list list \<times> int list" where
  "build_array_nmt vocab lines num_steps =
     (let lines1 = map (map vocab) lines;
          lines2 = map (\<lambda>l. l @ [vocab ''<eos>'']) lines1
      in case tf_constant (map (\<lambda>l. truncate_pad l num_steps (vocab ''<pad>'')) lines2) of
           Inl e \<Rightarrow> Inl e
         | Inr array \<Rightarrow>
             (case reduce_sum1
                     (map (map (\<lambda>x. if x \<noteq> vocab ''<pad>'' then 1 else 0)) array) of
                Inl e \<Rightarrow> Inl e
              | Inr valid_len \<Rightarrow> Inr (array, valid_len)))"

subsection \<open>Sequence mask\<close>

text \<open>
  A tensor of rank 2 is a list of rows, one of rank 3 a list of rows of
  vectors. \<open>shape1\<close> is \<^verbatim>\<open>X.shape[1]\<close>. \<^verbatim>\<open>tf.where\<close> broadcasts the mask, of one
  row per valid length, against \<open>X\<close> along the first axis. The comparison is on
  \<^verbatim>\<open>float32\<close> values: the parameter \<open>float32\<close> gives the value, as a real number,
  that an integer has after \<^verbatim>\<open>tf.range(..., dtype=tf.float32)\<close> or
  \<^verbatim>\<open>tf.cast(..., dtype=tf.float32)\<close>.
\<close>

datatype 'a tensor = Rank2 "'a list list" | Rank3 "'a list list list"

definition shape1 :: "'r list list \<Rightarrow> nat" where
  "shape1 X = (case X of [] \<Rightarrow> 0 | r # _ \<Rightarrow> length r)"

definition broadcast0 :: "'m list \<Rightarrow> 'x list \<Rightarrow> error + ('m \<times> 'x) list" where
  "broadcast0 ms xs =
     (if length ms = length xs then Inr (zip ms xs)
      else if length ms = 1 then Inr (map (\<lambda>x. (hd ms, x)) xs)
      else if length xs = 1 then Inr (map (\<lambda>m. (m, hd xs)) ms)
      else Inl InvalidArgumentError)"

definition mask_of :: "(int \<Rightarrow> real) \<Rightarrow> nat \<Rightarrow> int list \<Rightarrow> bool list list" where
  "mask_of float32 maxlen valid_len =
     map (\<lambda>v. map (\<lambda>j. float32 (int j) < float32 v) [0..<maxlen]) valid_len"

fun sequence_mask :: "(int \<Rightarrow> real) \<Rightarrow> 'a tensor \<Rightarrow> int list \<Rightarrow> 'a \<Rightarrow> error + 'a tensor" where
  "sequence_mask float32 (Rank3 X) valid_len val =
     (case broadcast0 (mask_of float32 (shape1 X) valid_len) X of
        Inl e \<Rightarrow> Inl e
      | Inr rows \<Rightarrow>
          Inr (Rank3 (map (\<lambda>(m, x). map (\<lambda>(b, vec). map (\<lambda>e. if b then e else val) vec)
                                    (zip m x)) rows)))"
| "sequence_mask float32 (Rank2 X) valid_len val =
     (case broadcast0 (mask_of float32 (shape1 X) valid_len) X of
        Inl e \<Rightarrow> Inl e
      | Inr rows \<Rightarrow>
          Inr (Rank2 (map (\<lambda>(m, x). map (\<lambda>(b, e). if b then e else val) (zip m x)) rows)))"

subsection \<open>Greedy decoding\<close>

text \<open>
  A vocabulary gives the index of a token and the token of an index. The model
  is its encoder, the initial decoder state, and the decoder, which returns its
  output, the next state and the attention weights it stored; \<open>argmax\<close> is
  \<^verbatim>\<open>tf.argmax\<close> on the output of one step.
\<close>

record vocab =
  token_to_idx :: "string \<Rightarrow> int"
  idx_to_token :: "int \<Rightarrow> string"

record ('e, 's, 'y, 'w) net =
  encoder :: "int list \<Rightarrow> int \<Rightarrow> 'e"
  init_state :: "'e \<Rightarrow> int \<Rightarrow> 's"
  decoder :: "int \<Rightarrow> 's \<Rightarrow> 'y \<times> 's \<times> 'w"

text \<open>
  The variables of the decoding loop. \<open>preds\<close> is not a variable of the code: it
  records the prediction of every decoder call made, to count the steps.
\<close>

record ('s, 'w) loop =
  dec_X :: int
  dec_state :: 's
  output_seq :: "int list"
  attention_weight_seq :: "'w list"
  preds :: "int list"

text \<open>\<^verbatim>\<open>for _ in range(n)\<close>, with its \<^verbatim>\<open>break\<close>.\<close>

fun decode ::
  "('e, 's, 'y, 'w) net \<Rightarrow> ('y \<Rightarrow> int) \<Rightarrow> int \<Rightarrow> bool \<Rightarrow> nat \<Rightarrow> ('s, 'w) loop \<Rightarrow> ('s, 'w) loop"
where
  "decode nt argmax eos save 0 s = s"
| "decode nt argmax eos save (Suc n) s =
     (case decoder nt (dec_X s) (dec_state s) of
        (Y, st, aw) \<Rightarrow>
          (let pred = argmax Y;
               s1 = s\<lparr>dec_X := pred, dec_state := st,
                      attention_weight_seq :=
                        (if save then attention_weight_seq s @ [aw]
                         else attention_weight_seq s),
                      preds := preds s @ [pred]\<rparr>
           in if pred = eos then s1
              else decode nt argmax eos save n (s1\<lparr>output_seq := output_seq s1 @ [pred]\<rparr>)))"

text \<open>\<^verbatim>\<open>sep.join(xs)\<close>\<close>

fun str_join :: "string \<Rightarrow> string list \<Rightarrow> string" where
  "str_join sep [] = []"
| "str_join sep [x] = x"
| "str_join sep (x # y # ys) = x @ sep @ str_join sep (y # ys)"

text \<open>
  The state of \<^verbatim>\<open>predict_seq2seq\<close> when its loop ends; \<open>lower\<close> is Python's
  \<^verbatim>\<open>str.lower\<close>.
\<close>

definition predict_loop ::
  "('e, 's, 'y, 'w) net \<Rightarrow> ('y \<Rightarrow> int) \<Rightarrow> (string \<Rightarrow> string) \<Rightarrow> string \<Rightarrow> vocab \<Rightarrow> vocab
     \<Rightarrow> int \<Rightarrow> bool \<Rightarrow> ('s, 'w) loop" where
  "predict_loop nt argmax lower src_sentence src_vocab tgt_vocab num_steps save =
     (let src_tokens = map (token_to_idx src_vocab) (split_on CHR '' '' (lower src_sentence))
                         @ [token_to_idx src_vocab ''<eos>''];
          enc_valid_len = int (length src_tokens);
          enc_X = truncate_pad src_tokens num_steps (token_to_idx src_vocab ''<pad>'');
          enc_outputs = encoder nt enc_X enc_valid_len
      in decode nt argmax (token_to_idx tgt_vocab ''<eos>'') save (nat num_steps)
           \<lparr>dec_X = token_to_idx tgt_vocab ''<bos>'',
            dec_state = init_state nt enc_outputs enc_valid_len,
            output_seq = [], attention_weight_seq = [], preds = []\<rparr>)"

definition predict_seq2seq ::
  "('e, 's, 'y, 'w) net \<Rightarrow> ('y \<Rightarrow> int) \<Rightarrow> (string \<Rightarrow> string) \<Rightarrow> string \<Rightarrow> vocab \<Rightarrow> vocab
     \<Rightarrow> int \<Rightarrow> bool \<Rightarrow> string \<times> 'w list" where
  "predict_seq2seq nt argmax lower src_sentence src_vocab tgt_vocab num_steps save =
     (let s = predict_loop nt argmax lower src_sentence src_vocab tgt_vocab num_steps save
      in (str_join '' '' (map (idx_to_token tgt_vocab) (output_seq s)),
          attention_weight_seq s))"

subsection \<open>Gradient clipping\<close>









section \<open>Properties\<close>

subsection \<open>Padding and truncation\<close>

text \<open>
  C3. For a token list of length \<open>L\<close> and a step count \<open>S\<close> (a count, so \<open>0 \<le> S\<close>),
  \<open>truncate_pad\<close> returns a list of length exactly \<open>S\<close>: the first \<open>S\<close> tokens when
  \<open>L > S\<close>, and the input followed by \<open>S - L\<close> copies of the padding token when
  \<open>L \<le> S\<close>.
\<close>

theorem truncate_pad_length:
  assumes "0 \<le> S"
  shows "int (length (truncate_pad line S p)) = S
    \<and> (int (length line) > S \<longrightarrow> truncate_pad line S p = take (nat S) line)
    \<and> (int (length line) \<le> S \<longrightarrow>
         truncate_pad line S p = line @ replicate (nat S - length line) p)"
  using assms by (auto simp: truncate_pad_def slice_to_def repeat_def nat_diff_distrib')

theorem truncate_pad_length_witness:
  "(0::int) \<le> 2
    \<and> truncate_pad [7, 8, 9 :: nat] 2 0 = [7, 8]
    \<and> truncate_pad [7 :: nat] 2 0 = [7, 0]
    \<and> int (length (truncate_pad [7, 8, 9 :: nat] 2 0)) = 2"
  using truncate_pad_length [of 2 "[7, 8, 9 :: nat]" 0]
    truncate_pad_length [of 2 "[7 :: nat]" 0]
  by (simp add: numeral_2_eq_2)

subsection \<open>Accumulator\<close>


lemma length_add: "length (data (add self args)) = min (length (data self)) (length args)"
  by (simp add: add_def)

lemma length_reset: "length (data (reset self)) = length (data self)"
  by (simp add: reset_def repeat_def)

lemma length_init: "length (data (init n)) = nat n"
  by (simp add: init_def repeat_def)

lemma length_run_call_le: "length (data (run_call self c)) \<le> length (data self)"
  by (cases c) (simp_all add: length_add length_reset)

lemma length_run_calls_le: "length (data (run_calls self cs)) \<le> length (data self)"
  unfolding run_calls_def
proof (induction cs arbitrary: self)
  case Nil
  show ?case by simp
next
  case (Cons c cs)
  have "length (data (foldl run_call (run_call self c) cs)) \<le> length (data (run_call self c))"
    by (rule Cons.IH)
  also have "\<dots> \<le> length (data self)" by (rule length_run_call_le)
  finally show ?case by simp
qed

lemma length_run_calls_eq:
  assumes "\<forall>args. Add args \<in> set cs \<longrightarrow> length (data self) \<le> length args"
  shows "length (data (run_calls self cs)) = length (data self)"
  using assms unfolding run_calls_def
proof (induction cs arbitrary: self)
  case Nil
  show ?case by simp
next
  case (Cons c cs)
  have step: "length (data (run_call self c)) = length (data self)"
    using Cons.prems by (cases c) (auto simp: length_add length_reset)
  with Cons.prems have "\<forall>args. Add args \<in> set cs \<longrightarrow> length (data (run_call self c)) \<le> length args"
    by simp
  from Cons.IH [OF this] step show ?case by simp
qed

text \<open>
  C4 (as amended). The number of slots of an accumulator constructed with \<open>n\<close>
  slots never grows under \<open>add\<close> and \<open>reset\<close>, and it remains \<open>n\<close> after every
  sequence of calls in which each \<open>add\<close> passes at least \<open>n\<close> values. (The \<open>zip\<close> in
  \<open>add\<close> cuts the data to the number of values passed when that is smaller.)
\<close>

theorem accumulator_slots:
  "length (data (run_calls (init n) cs)) \<le> nat n
   \<and> ((\<forall>args. Add args \<in> set cs \<longrightarrow> nat n \<le> length args)
        \<longrightarrow> length (data (run_calls (init n) cs)) = nat n)"
  using length_run_calls_le [of "init n" cs] length_run_calls_eq [of cs "init n"]
  by (simp add: length_init)

theorem accumulator_slots_witness:
  "nat 2 \<le> length [1, 2, 3::int] \<and> nat 2 \<le> length [4, 5::int]
   \<and> length (data (run_calls (init 2) [Add [1, 2, 3::int], Reset, Add [4, 5]])) = nat 2"
  using accumulator_slots [of 2 "[Add [1, 2, 3::int], Reset, Add [4, 5]]"]
  by auto

text \<open>
  The claim as stated, for any number of values per call, fails: one value added to
  a two-slot accumulator leaves one slot.
\<close>

theorem accumulator_slots_counterexample:
  "length (data (run_calls (init 2) [Add [1::int]])) \<noteq> nat 2"
  by (simp add: run_calls_def init_def add_def repeat_def numeral_2_eq_2)

lemma add_slot:
  assumes "i < length (data self)" "i < length args"
  shows "i < length (data (add self args)) \<and> data (add self args) ! i = data self ! i + args ! i"
  using assms by (simp add: add_def)

lemma adds_slot:
  assumes "i < length (data self)" "\<forall>args \<in> set vs. i < length args"
  shows "i < length (data (run_calls self (map Add vs)))
       \<and> data (run_calls self (map Add vs)) ! i = foldl (+) (data self ! i) (map (\<lambda>args. args ! i) vs)"
  using assms unfolding run_calls_def
proof (induction vs arbitrary: self)
  case Nil
  then show ?case by simp
next
  case (Cons v vs)
  from Cons.prems have s: "i < length (data (add self v))" "data (add self v) ! i = data self ! i + v ! i"
    using add_slot [of i self v] by simp_all
  from Cons.prems have "\<forall>args \<in> set vs. i < length args" by simp
  from Cons.IH [OF s(1) this] s(2) show ?case by simp
qed

lemma index_nat: "i < length xs \<Longrightarrow> index xs (int i) = Inr (xs ! i)"
  by (simp add: index_def)

lemma reset_slot: "i < length (data self) \<Longrightarrow> data (reset self) ! i = 0"
  by (simp add: reset_def repeat_def)

lemma init_slot: "i < nat n \<Longrightarrow> data (init n) ! i = 0"
  by (simp add: init_def repeat_def)

text \<open>
  C5. After a sequence of \<open>add\<close> calls that contribute the values \<open>v1..vn\<close> to
  slot \<open>i\<close>, starting from construction or from a reset, indexing slot \<open>i\<close> returns
  \<open>((0 + v1) + v2) + ... + vn\<close>, the sum in the order of the calls; and after
  \<open>reset\<close> every slot reads zero.
\<close>

theorem accumulator_sum:
  fixes self :: "'a::{zero,plus} Accumulator"
  shows "(i < nat n \<longrightarrow> (\<forall>args \<in> set vs. i < length args) \<longrightarrow>
           getitem (run_calls (init n) (map Add vs)) (int i)
             = Inr (foldl (+) (0::'a) (map (\<lambda>args. args ! i) vs)))
       \<and> (i < length (data self) \<longrightarrow> (\<forall>args \<in> set vs. i < length args) \<longrightarrow>
           getitem (run_calls (reset self) (map Add vs)) (int i)
             = Inr (foldl (+) 0 (map (\<lambda>args. args ! i) vs)))
       \<and> (i < length (data self) \<longrightarrow> getitem (reset self) (int i) = Inr 0)"
proof (intro conjI impI)
  assume i: "i < nat n" and vs: "\<forall>args \<in> set vs. i < length args"
  from i have "i < length (data (init n :: 'a Accumulator))" by (simp add: length_init)
  from adds_slot [OF this vs] i
  show "getitem (run_calls (init n) (map Add vs)) (int i)
      = Inr (foldl (+) (0::'a) (map (\<lambda>args. args ! i) vs))"
    by (simp add: getitem_def index_nat init_slot)
next
  assume i: "i < length (data self)" and vs: "\<forall>args \<in> set vs. i < length args"
  from i have "i < length (data (reset self))" by (simp add: length_reset)
  from adds_slot [OF this vs] i
  show "getitem (run_calls (reset self) (map Add vs)) (int i)
      = Inr (foldl (+) 0 (map (\<lambda>args. args ! i) vs))"
    by (simp add: getitem_def index_nat reset_slot)
next
  assume i: "i < length (data self)"
  then show "getitem (reset self) (int i) = Inr 0"
    by (simp add: getitem_def index_nat reset_slot length_reset)
qed

theorem accumulator_sum_witness:
  "(1::nat) < nat 2 \<and> 1 < length [1, 2 :: int] \<and> 1 < length [3, 4 :: int]
   \<and> getitem (run_calls (init 2) (map Add [[1, 2], [3, 4 :: int]])) 1 = Inr 6
   \<and> 1 < length (data \<lparr>data = [5, 7 :: int]\<rparr>)
   \<and> getitem (run_calls (reset \<lparr>data = [5, 7 :: int]\<rparr>) (map Add [[1, 2], [3, 4 :: int]])) 1 = Inr 6
   \<and> getitem (reset \<lparr>data = [5, 7 :: int]\<rparr>) 1 = Inr 0"
  using accumulator_sum [of 1 2 "[[1, 2], [3, 4 :: int]]" "\<lparr>data = [5, 7 :: int]\<rparr>"]
  by simp

text \<open>In exact arithmetic the left-to-right sum is the sum of the list.\<close>

lemma foldl_plus_sum_list: "foldl (+) a vs = a + sum_list (vs :: 'a::monoid_add list)"
  by (induction vs arbitrary: a) (simp_all add: add.assoc)

subsection \<open>Assertion failures\<close>

text \<open>
  C6. \<open>extract_archive\<close> on a filename whose extension (as \<open>splitext\<close> gives it)
  is not one of \<open>.zip\<close>, \<open>.tar\<close>, \<open>.gz\<close>, and \<open>tokenize\<close> with a mode other than
  \<open>word\<close> or \<open>char\<close>, return an \<open>AssertionError\<close> to the caller, before anything is
  done to the file system; for an extension or mode in the set the check passes:
  the result of \<open>extract_archive\<close> is that of the archive library, and \<open>tokenize\<close>
  returns a token list.
\<close>

theorem assertion_failures:
  "(snd (splitext filename) \<notin> {''.zip'', ''.tar'', ''.gz''} \<longrightarrow>
      extract_archive extractall filename folder w
        = Inl (AssertionError ''Only support zip/tar files.''))
   \<and> (snd (splitext filename) \<in> {''.zip'', ''.tar'', ''.gz''} \<longrightarrow>
      extract_archive extractall filename folder w
        = extractall (if snd (splitext filename) = ''.zip'' then ZipFile else TarOpen) filename
            (case folder of None \<Rightarrow> dirname filename | Some d \<Rightarrow> d) w)
   \<and> (token \<notin> {''word'', ''char''} \<longrightarrow>
      tokenize isspace lines token = Inl (AssertionError (''Unknown token type: '' @ token)))
   \<and> (token \<in> {''word'', ''char''} \<longrightarrow>
      (\<exists>toks. tokenize isspace lines token = Inr toks))"
  by (simp add: extract_archive_def tokenize_def Let_def)

theorem assertion_failures_witness:
  "extract_archive (\<lambda>k f d w. Inr (w @ [(k, f, d)])) ''../data/fra-eng.txt'' None []
      = Inl (AssertionError ''Only support zip/tar files.'')
   \<and> extract_archive (\<lambda>k f d w. Inr (w @ [(k, f, d)])) ''../data/fra-eng.zip'' None []
      = Inr [(ZipFile, ''../data/fra-eng.zip'', ''../data'')]
   \<and> extract_archive (\<lambda>k f d w. Inr (w @ [(k, f, d)])) ''../data/x.tar.gz'' (Some ''out'') []
      = Inr [(TarOpen, ''../data/x.tar.gz'', ''out'')]
   \<and> tokenize (\<lambda>c. c = CHR '' '') [''a b''] ''line''
      = Inl (AssertionError ''Unknown token type: line'')
   \<and> (\<exists>toks. tokenize (\<lambda>c. c = CHR '' '') [''a b''] ''char'' = Inr toks)"
proof -
  have e1: "splitext ''../data/fra-eng.txt'' = (''../data/fra-eng'', ''.txt'')"
    by code_simp
  have e2: "splitext ''../data/fra-eng.zip'' = (''../data/fra-eng'', ''.zip'')"
    by code_simp
  have e3: "splitext ''../data/x.tar.gz'' = (''../data/x.tar'', ''.gz'')"
    by code_simp
  have d: "dirname ''../data/fra-eng.zip'' = ''../data''"
    by code_simp
  show ?thesis
    using assertion_failures [of "''../data/fra-eng.txt''" "\<lambda>k f d w. Inr (w @ [(k, f, d)])"
        None "[]" "''line''" "\<lambda>c. c = CHR '' ''" "[''a b'']"]
      assertion_failures [of "''../data/fra-eng.zip''" "\<lambda>k f d w. Inr (w @ [(k, f, d)])"
        None "[]" "''char''" "\<lambda>c. c = CHR '' ''" "[''a b'']"]
      assertion_failures [of "''../data/x.tar.gz''" "\<lambda>k f d w. Inr (w @ [(k, f, d)])"
        "Some ''out''" "[]" "''char''" "\<lambda>c. c = CHR '' ''" "[''a b'']"]
    by (simp add: e1 e2 e3 d)
qed

subsection \<open>Tokenizer\<close>

lemma maximal_runs_from: "maximal_runs isspace s = runs_from isspace s 0"
  unfolding maximal_runs_def runs_from_def runs_at_def ..

lemma runs_at_space:
  assumes "isspace (s ! i)"
  shows "runs_at isspace s i = []"
proof -
  have "\<not> maximal_run isspace s i j" for j
    using assms by (auto simp: maximal_run_def)
  then show ?thesis by (simp add: runs_at_def)
qed

lemma runs_at_inner:
  assumes "0 < i" "\<not> isspace (s ! (i - 1))"
  shows "runs_at isspace s i = []"
proof -
  have "\<not> maximal_run isspace s i j" for j
    using assms by (auto simp: maximal_run_def)
  then show ?thesis by (simp add: runs_at_def)
qed

lemma concat_single:
  assumes "distinct xs" "y \<in> set xs"
  shows "concat (map (\<lambda>j. if j = y then [f j] else []) xs) = [f y]"
  using assms
proof (induction xs)
  case Nil
  then show ?case by simp
next
  case (Cons x xs)
  show ?case
  proof (cases "x = y")
    case True
    with Cons.prems have "\<forall>j \<in> set xs. j \<noteq> y" by auto
    then have "concat (map (\<lambda>j. if j = y then [f j] else []) xs) = []" by simp
    with True show ?thesis by simp
  next
    case False
    with Cons show ?thesis by simp
  qed
qed

lemma runs_at_start:
  assumes i: "i < length s" and ns: "\<not> isspace (s ! i)"
    and b: "i = 0 \<or> isspace (s ! (i - 1))"
  defines "w \<equiv> takeWhile (\<lambda>x. \<not> isspace x) (drop i s)"
  shows "runs_at isspace s i = [w]"
proof -
  let ?j0 = "i + length w"
  have wl: "length w \<le> length s - i"
    unfolding w_def using length_takeWhile_le [of "\<lambda>x. \<not> isspace x" "drop i s"] by simp
  have w0: "0 < length w"
  proof -
    from i have "drop i s = s ! i # drop (Suc i) s" by (simp add: Cons_nth_drop_Suc)
    with ns show ?thesis by (simp add: w_def)
  qed
  have inside: "\<not> isspace (s ! k)" if "i \<le> k" "k < ?j0" for k
  proof -
    from that have lt: "k - i < length w" by simp
    then have "w ! (k - i) \<in> set w" by simp
    then have "\<not> isspace (w ! (k - i))" unfolding w_def by (auto dest: set_takeWhileD)
    moreover have "w ! (k - i) = drop i s ! (k - i)"
      using lt unfolding w_def by (rule takeWhile_nth)
    moreover have "drop i s ! (k - i) = s ! k" using that wl lt by simp
    ultimately show ?thesis by simp
  qed
  have stop: "isspace (s ! ?j0)" if "?j0 < length s"
  proof -
    from that have "length w < length (drop i s)" by simp
    then have "\<not> \<not> isspace (drop i s ! length w)"
      unfolding w_def by (rule nth_length_takeWhile)
    moreover have "drop i s ! length w = s ! ?j0" using that by simp
    ultimately show ?thesis by simp
  qed
  have iff: "maximal_run isspace s i j \<longleftrightarrow> j = ?j0" for j
  proof
    assume m: "maximal_run isspace s i j"
    show "j = ?j0"
    proof (rule ccontr)
      assume "j \<noteq> ?j0"
      then consider "j < ?j0" | "?j0 < j" by linarith
      then show False
      proof cases
        case 1
        with m wl have "isspace (s ! j)" by (auto simp: maximal_run_def)
        moreover from m 1 have "\<not> isspace (s ! j)" by (intro inside) (auto simp: maximal_run_def)
        ultimately show False by simp
      next
        case 2
        with m have "?j0 < length s" by (auto simp: maximal_run_def)
        then have "isspace (s ! ?j0)" by (rule stop)
        moreover from m 2 have "\<not> isspace (s ! ?j0)" by (auto simp: maximal_run_def)
        ultimately show False by simp
      qed
    qed
  next
    assume j: "j = ?j0"
    have e: "?j0 = length s \<or> isspace (s ! ?j0)"
    proof (cases "?j0 < length s")
      case True
      then show ?thesis by (simp add: stop)
    next
      case False
      with wl i have "?j0 = length s" by linarith
      then show ?thesis ..
    qed
    have "\<forall>k \<in> {i..<?j0}. \<not> isspace (s ! k)" by (simp add: inside)
    with j e b w0 wl i show "maximal_run isspace s i j"
      unfolding maximal_run_def by simp
  qed
  have "Suc i \<le> ?j0" "?j0 < Suc (length s)" using w0 wl i by linarith+
  then have mem: "?j0 \<in> set [Suc i..<Suc (length s)]" unfolding set_upt by simp
  have "runs_at isspace s i
      = concat (map (\<lambda>j. if j = ?j0 then [take (j - i) (drop i s)] else [])
          [Suc i..<Suc (length s)])"
    by (simp add: runs_at_def iff)
  also have "\<dots> = [take (?j0 - i) (drop i s)]"
    using concat_single [OF _ mem, of "\<lambda>j. take (j - i) (drop i s)"] by simp
  also have "take (?j0 - i) (drop i s) = w"
    by (simp add: w_def takeWhile_eq_take [symmetric])
  finally show ?thesis .
qed


lemma takeWhile_drop_inside:
  assumes "i \<le> k" "k < i + length (takeWhile P (drop i s))"
  shows "P (s ! k)"
proof -
  let ?w = "takeWhile P (drop i s)"
  have wl: "length ?w \<le> length s - i"
    using length_takeWhile_le [of P "drop i s"] by simp
  from assms have lt: "k - i < length ?w" by simp
  then have "?w ! (k - i) \<in> set ?w" by simp
  then have "P (?w ! (k - i))" by (auto dest: set_takeWhileD)
  moreover have "?w ! (k - i) = drop i s ! (k - i)"
    using lt by (rule takeWhile_nth)
  moreover have "drop i s ! (k - i) = s ! k" using assms wl lt by simp
  ultimately show ?thesis by simp
qed

lemma takeWhile_drop_stop:
  assumes "i + length (takeWhile P (drop i s)) < length s"
  shows "\<not> P (s ! (i + length (takeWhile P (drop i s))))"
proof -
  from assms have "length (takeWhile P (drop i s)) < length (drop i s)" by simp
  then have "\<not> P (drop i s ! length (takeWhile P (drop i s)))"
    by (rule nth_length_takeWhile)
  moreover have "drop i s ! length (takeWhile P (drop i s))
      = s ! (i + length (takeWhile P (drop i s)))"
    using assms by simp
  ultimately show ?thesis by simp
qed

lemma runs_from_skip:
  assumes "k \<le> m" "m \<le> length s" "\<forall>i. k \<le> i \<and> i < m \<longrightarrow> runs_at isspace s i = []"
  shows "runs_from isspace s k = runs_from isspace s m"
proof -
  from assms(1,2) have "[k..<length s] = [k..<m] @ [m..<length s]"
    using upt_add_eq_append [of k m "length s - m"] by simp
  moreover from assms(3) have "concat (map (runs_at isspace s) [k..<m]) = []" by simp
  ultimately show ?thesis by (simp add: runs_from_def)
qed

lemma runs_from_Cons:
  assumes "k < length s"
  shows "runs_from isspace s k = runs_at isspace s k @ runs_from isspace s (Suc k)"
  using assms by (simp add: runs_from_def upt_conv_Cons)

lemma str_split_runs_from:
  assumes "k \<le> length s"
    and "k = 0 \<or> k = length s \<or> isspace (s ! (k - 1)) \<or> isspace (s ! k)"
  shows "str_split isspace (drop k s) = runs_from isspace s k"
  using assms
proof (induction "length s - k" arbitrary: k rule: less_induct)
  case less
  let ?n = "length s"
  let ?i0 = "k + length (takeWhile isspace (drop k s))"
  have i0n: "?i0 \<le> ?n"
    using length_takeWhile_le [of isspace "drop k s"] less.prems(1) by simp
  have spaces: "isspace (s ! i)" if "k \<le> i" "i < ?i0" for i
    using that by (rule takeWhile_drop_inside)
  have skip: "runs_from isspace s k = runs_from isspace s ?i0"
    by (rule runs_from_skip) (use i0n spaces in \<open>auto intro: runs_at_space\<close>)
  have dw: "dropWhile isspace (drop k s) = drop ?i0 s"
    by (simp add: dropWhile_eq_drop add.commute)
  show ?case
  proof (cases "?i0 = ?n")
    case True
    then have "runs_from isspace s ?i0 = []" by (simp add: runs_from_def)
    moreover from True dw have e: "dropWhile isspace (drop k s) = []" by simp
    have "str_split isspace (drop k s) = []"
      by (subst str_split.simps) (simp only: e list.case)
    ultimately show ?thesis using skip by simp
  next
    case False
    with i0n have i0: "?i0 < ?n" by simp
    then have ns: "\<not> isspace (s ! ?i0)" by (rule takeWhile_drop_stop)
    have b: "?i0 = 0 \<or> isspace (s ! (?i0 - 1))"
    proof (cases "?i0 = k")
      case True
      with less.prems(2) i0 ns show ?thesis by auto
    next
      case False
      then have "k \<le> ?i0 - 1" "?i0 - 1 < ?i0" by linarith+
      then have "isspace (s ! (?i0 - 1))" by (rule spaces)
      then show ?thesis ..
    qed
    let ?w = "takeWhile (\<lambda>x. \<not> isspace x) (drop ?i0 s)"
    let ?j0 = "?i0 + length ?w"
    have cons: "drop ?i0 s = s ! ?i0 # drop (Suc ?i0) s"
      using i0 by (simp add: Cons_nth_drop_Suc)
    have w: "?w = s ! ?i0 # takeWhile (\<lambda>x. \<not> isspace x) (drop (Suc ?i0) s)"
      using ns by (subst cons) simp
    have rest: "dropWhile (\<lambda>x. \<not> isspace x) (drop (Suc ?i0) s) = drop ?j0 s"
    proof -
      have "dropWhile (\<lambda>x. \<not> isspace x) (drop (Suc ?i0) s)
          = dropWhile (\<lambda>x. \<not> isspace x) (drop ?i0 s)"
        using ns by (subst cons) simp
      also have "\<dots> = drop (length ?w) (drop ?i0 s)" by (rule dropWhile_eq_drop)
      also have "\<dots> = drop ?j0 s" by (simp add: add.commute)
      finally show ?thesis .
    qed
    have "str_split isspace (drop k s)
        = (s ! ?i0 # takeWhile (\<lambda>x. \<not> isspace x) (drop (Suc ?i0) s))
          # str_split isspace (dropWhile (\<lambda>x. \<not> isspace x) (drop (Suc ?i0) s))"
      by (subst str_split.simps) (simp only: dw cons list.case)
    then have lhs: "str_split isspace (drop k s) = ?w # str_split isspace (drop ?j0 s)"
      by (simp only: w [symmetric] rest)
    have j0n: "?j0 \<le> ?n"
      using length_takeWhile_le [of "\<lambda>x. \<not> isspace x" "drop ?i0 s"] i0 by simp
    have j0gt: "Suc ?i0 \<le> ?j0" by (subst w) simp
    have inner: "runs_at isspace s i = []" if "Suc ?i0 \<le> i" "i < ?j0" for i
    proof -
      from that have "?i0 \<le> i - 1" "i - 1 < ?j0" by linarith+
      then have "\<not> isspace (s ! (i - 1))" by (rule takeWhile_drop_inside)
      moreover from that have "0 < i" by simp
      ultimately show ?thesis by (intro runs_at_inner)
    qed
    have stop: "?j0 = 0 \<or> ?j0 = ?n \<or> isspace (s ! (?j0 - 1)) \<or> isspace (s ! ?j0)"
    proof (cases "?j0 < ?n")
      case True
      then have "\<not> \<not> isspace (s ! ?j0)" by (rule takeWhile_drop_stop)
      then show ?thesis by simp
    next
      case False
      with j0n have "?j0 = ?n" by linarith
      then show ?thesis by simp
    qed
    have "?n - ?j0 < ?n - k" using j0gt i0 by linarith
    from less.hyps [OF this j0n stop]
    have ih: "str_split isspace (drop ?j0 s) = runs_from isspace s ?j0" .
    have "runs_from isspace s ?i0 = runs_at isspace s ?i0 @ runs_from isspace s (Suc ?i0)"
      using i0 by (rule runs_from_Cons)
    also have "runs_at isspace s ?i0 = [?w]"
      using i0 ns b by (rule runs_at_start)
    also have "runs_from isspace s (Suc ?i0) = runs_from isspace s ?j0"
      by (rule runs_from_skip) (use j0gt j0n inner in auto)
    finally show ?thesis using skip lhs ih by simp
  qed
qed

text \<open>The whitespace split of a line is the list of its maximal whitespace-free substrings.\<close>

lemma str_split_maximal_runs: "str_split isspace s = maximal_runs isspace s"
  using str_split_runs_from [of 0 s isspace] by (simp add: maximal_runs_from)

text \<open>
  C8. For every list of lines, the \<open>char\<close> tokens of each line concatenate to that
  line, and the \<open>word\<close> tokens of each line are exactly its maximal whitespace-free
  substrings, from left to right.
\<close>

theorem tokenize_char_word:
  "(\<exists>toks. tokenize isspace lines ''char'' = Inr toks \<and> map concat toks = lines)
   \<and> tokenize isspace lines ''word'' = Inr (map (maximal_runs isspace) lines)"
proof -
  have "map (concat \<circ> (\<lambda>line. map (\<lambda>c. [c]) line)) lines = lines"
    by (induction lines) simp_all
  then show ?thesis
    by (simp add: tokenize_def str_split_maximal_runs)
qed

theorem tokenize_char_word_witness:
  "tokenize (\<lambda>c. c = CHR '' '') ['' go  now '', ''hi''] ''word'' = Inr [[''go'', ''now''], [''hi'']]
   \<and> map (maximal_runs (\<lambda>c. c = CHR '' '')) ['' go  now '', ''hi''] = [[''go'', ''now''], [''hi'']]
   \<and> tokenize (\<lambda>c. c = CHR '' '') [''a b''] ''char'' = Inr [[''a'', '' '', ''b'']]"
proof -
  have w: "tokenize (\<lambda>c. c = CHR '' '') ['' go  now '', ''hi''] ''word''
      = Inr [[''go'', ''now''], [''hi'']]"
    by (simp add: tokenize_def str_split.simps)
  have c: "tokenize (\<lambda>c. c = CHR '' '') [''a b''] ''char'' = Inr [[''a'', '' '', ''b'']]"
    by (simp add: tokenize_def)
  from tokenize_char_word [of "\<lambda>c. c = CHR '' ''" "['' go  now '', ''hi'']"]
  have "tokenize (\<lambda>c. c = CHR '' '') ['' go  now '', ''hi''] ''word''
      = Inr (map (maximal_runs (\<lambda>c. c = CHR '' '')) ['' go  now '', ''hi''])"
    by (rule conjunct2)
  from this [symmetric] w
  have "(Inr (map (maximal_runs (\<lambda>c. c = CHR '' '')) ['' go  now '', ''hi''])
      :: error + string list list) = Inr [[''go'', ''now''], [''hi'']]"
    by (rule trans)
  then have m: "map (maximal_runs (\<lambda>c. c = CHR '' '')) ['' go  now '', ''hi'']
      = [[''go'', ''now''], [''hi'']]"
    by (simp only: sum.inject)
  from w m c show ?thesis by (intro conjI)
qed

subsection \<open>File download\<close>




subsection \<open>Minibatches for machine translation\<close>

lemma length_truncate_pad: "0 \<le> S \<Longrightarrow> length (truncate_pad line S p) = nat S"
  by (auto simp: truncate_pad_def slice_to_def repeat_def)

lemma sum_list_indicator:
  "sum_list (map (\<lambda>x. if P x then 1 else 0) xs) = int (length (filter P xs))"
  by (induction xs) simp_all

lemma int32_id: "0 \<le> x \<Longrightarrow> x < 2 ^ 31 \<Longrightarrow> int32 x = x"
  by (simp add: int32_def)

lemma int32_count:
  assumes "int (length row) < 2 ^ 31"
  shows "int32 (sum_list (map (\<lambda>x. if x \<noteq> pad then 1 else 0) row))
       = int (length (filter (\<lambda>x. x \<noteq> pad) row))"
proof -
  have "length (filter (\<lambda>x. x \<noteq> pad) row) \<le> length row" by (rule length_filter_le)
  with assms have "int (length (filter (\<lambda>x. x \<noteq> pad) row)) < 2 ^ 31" by linarith
  then show ?thesis by (simp add: sum_list_indicator int32_id)
qed

lemma build_array_nmt_returns:
  assumes "build_array_nmt vocab lines num_steps = Inr (array, valid_len)"
  shows "array = map (\<lambda>l. truncate_pad l num_steps (vocab ''<pad>''))
                   (map (\<lambda>l. l @ [vocab ''<eos>'']) (map (map vocab) lines))
       \<and> valid_len = map (\<lambda>row. int32 (sum_list
                           (map (\<lambda>x. if x \<noteq> vocab ''<pad>'' then 1 else 0) row))) array"
  using assms
  by (auto simp: build_array_nmt_def Let_def tf_constant_def reduce_sum1_def comp_def
      split: sum.splits if_splits)

text \<open>
  C9. For every batch that \<open>build_array_nmt\<close> builds, with rows of fewer than
  \<open>2 ^ 31\<close> entries, the valid length paired with each example is the number of
  entries of its padded row that are not the index of the padding token. A
  batch is built from every non-empty list of lines and step count
  \<open>num_steps \<ge> 0\<close>, and its rows have \<open>num_steps\<close> entries.
\<close>

theorem build_array_nmt_valid_len:
  "(build_array_nmt vocab lines num_steps = Inr (array, valid_len) \<longrightarrow>
      (\<forall>row \<in> set array. int (length row) < 2 ^ 31) \<longrightarrow>
      length valid_len = length array
      \<and> (\<forall>i < length array.
            valid_len ! i = int (length (filter (\<lambda>x. x \<noteq> vocab ''<pad>'') (array ! i)))))
   \<and> (lines \<noteq> [] \<longrightarrow> 0 \<le> num_steps \<longrightarrow>
        (\<exists>array valid_len.
           build_array_nmt vocab lines num_steps = Inr (array, valid_len)
           \<and> length array = length lines
           \<and> (\<forall>row \<in> set array. length row = nat num_steps)))"
proof (intro conjI impI)
  assume r: "build_array_nmt vocab lines num_steps = Inr (array, valid_len)"
    and small: "\<forall>row \<in> set array. int (length row) < 2 ^ 31"
  from build_array_nmt_returns [OF r]
  have v: "valid_len = map (\<lambda>row. int32 (sum_list
              (map (\<lambda>x. if x \<noteq> vocab ''<pad>'' then 1 else 0) row))) array"
    by (rule conjunct2)
  then show "length valid_len = length array" by simp
  show "\<forall>i < length array.
      valid_len ! i = int (length (filter (\<lambda>x. x \<noteq> vocab ''<pad>'') (array ! i)))"
  proof (intro allI impI)
    fix i assume i: "i < length array"
    then have "array ! i \<in> set array" by simp
    with small have "int (length (array ! i)) < 2 ^ 31" by blast
    then have "int32 (sum_list (map (\<lambda>x. if x \<noteq> vocab ''<pad>'' then 1 else 0) (array ! i)))
        = int (length (filter (\<lambda>x. x \<noteq> vocab ''<pad>'') (array ! i)))"
      by (rule int32_count)
    with i show "valid_len ! i = int (length (filter (\<lambda>x. x \<noteq> vocab ''<pad>'') (array ! i)))"
      unfolding v by simp
  qed
next
  assume ne: "lines \<noteq> []" and pos: "0 \<le> num_steps"
  let ?pad = "vocab ''<pad>''"
  let ?array = "map (\<lambda>l. truncate_pad l num_steps ?pad)
                  (map (\<lambda>l. l @ [vocab ''<eos>'']) (map (map vocab) lines))"
  let ?valid = "map (\<lambda>row. int32 (sum_list (map (\<lambda>x. if x \<noteq> ?pad then 1 else 0) row))) ?array"
  have len: "length r = nat num_steps" if "r \<in> set ?array" for r
    using that pos by (auto simp: length_truncate_pad)
  have rect: "tf_constant ?array = Inr ?array"
  proof -
    from ne have "?array \<noteq> []" by simp
    then have "hd ?array \<in> set ?array" by (rule hd_in_set)
    then have "length (hd ?array) = nat num_steps" by (rule len)
    with len show ?thesis unfolding tf_constant_def by simp
  qed
  have red: "reduce_sum1 (map (map (\<lambda>x. if x \<noteq> ?pad then 1 else 0)) ?array) = Inr ?valid"
    using ne by (simp add: reduce_sum1_def comp_def)
  have res: "build_array_nmt vocab lines num_steps = Inr (?array, ?valid)"
    unfolding build_array_nmt_def Let_def rect by (simp only: red sum.case)
  show "\<exists>array valid_len.
      build_array_nmt vocab lines num_steps = Inr (array, valid_len)
      \<and> length array = length lines
      \<and> (\<forall>row \<in> set array. length row = nat num_steps)"
  proof (intro exI conjI)
    show "build_array_nmt vocab lines num_steps = Inr (?array, ?valid)" by (rule res)
    show "length ?array = length lines" by simp
    show "\<forall>row \<in> set ?array. length row = nat num_steps" using len by blast
  qed
qed

theorem build_array_nmt_valid_len_witness:
  "build_array_nmt (\<lambda>t. if t = ''<pad>'' then 1 else if t = ''<eos>'' then 3 else 7)
        [[''go'', ''now''], [''hi'']] 4
      = Inr ([[7, 7, 3, 1], [7, 3, 1, 1]], [3, 2])
   \<and> int (length [7, 7, 3, 1 :: int]) < 2 ^ 31 \<and> int (length [7, 3, 1, 1 :: int]) < 2 ^ 31
   \<and> [3, 2] ! 0 = int (length (filter (\<lambda>x. x \<noteq> 1) [7, 7, 3, 1 :: int]))
   \<and> [3, 2] ! 1 = int (length (filter (\<lambda>x. x \<noteq> 1) [7, 3, 1, 1 :: int]))"
proof -
  let ?vocab = "\<lambda>t. if t = ''<pad>'' then 1 else if t = ''<eos>'' then 3 else (7::int)"
  have e: "build_array_nmt ?vocab [[''go'', ''now''], [''hi'']] 4
      = Inr ([[7, 7, 3, 1], [7, 3, 1, 1]], [3, 2])"
    by (simp add: build_array_nmt_def tf_constant_def reduce_sum1_def int32_def
        truncate_pad_def repeat_def slice_to_def eval_nat_numeral)
  have s: "\<forall>row \<in> set [[7, 7, 3, 1], [7, 3, 1, 1 :: int]]. int (length row) < 2 ^ 31"
    by simp
  from build_array_nmt_valid_len [of ?vocab "[[''go'', ''now''], [''hi'']]" 4
      "[[7, 7, 3, 1], [7, 3, 1, 1]]" "[3, 2]"] e s
  have "\<forall>i < length [[7, 7, 3, 1], [7, 3, 1, 1 :: int]].
      [3, 2] ! i = int (length (filter (\<lambda>x. x \<noteq> ?vocab ''<pad>'')
        ([[7, 7, 3, 1], [7, 3, 1, 1]] ! i)))"
    by blast
  then have "[3, 2] ! 0 = int (length (filter (\<lambda>x. x \<noteq> ?vocab ''<pad>'')
        ([[7, 7, 3, 1], [7, 3, 1, 1 :: int]] ! 0)))"
    and "[3, 2] ! 1 = int (length (filter (\<lambda>x. x \<noteq> ?vocab ''<pad>'')
        ([[7, 7, 3, 1], [7, 3, 1, 1 :: int]] ! 1)))"
    by simp_all
  with e show ?thesis by simp
qed

subsection \<open>Sequence mask\<close>

lemma shape1_rows:
  assumes "\<forall>row \<in> set X. length row = maxlen" and "i < length X"
  shows "shape1 X = maxlen"
  using assms by (cases X) (auto simp: shape1_def)

lemma mask_of_nth:
  assumes mono: "\<And>a b. a \<le> b \<Longrightarrow> float32 a \<le> float32 b"
    and exact: "\<And>k. 0 \<le> k \<Longrightarrow> k \<le> int maxlen \<Longrightarrow> float32 k = of_int k"
    and "i < length valid_len" and j: "j < maxlen"
  shows "mask_of float32 maxlen valid_len ! i ! j \<longleftrightarrow> int j < valid_len ! i"
proof -
  let ?v = "valid_len ! i"
  have m: "mask_of float32 maxlen valid_len ! i ! j \<longleftrightarrow> float32 (int j) < float32 ?v"
    using assms(3) j by (simp add: mask_of_def)
  from j have fj: "float32 (int j) = of_int (int j)" by (intro exact) simp_all
  have "float32 (int j) < float32 ?v \<longleftrightarrow> int j < ?v"
  proof
    assume lt: "float32 (int j) < float32 ?v"
    show "int j < ?v"
    proof (rule ccontr)
      assume "\<not> int j < ?v"
      then have "?v \<le> int j" by simp
      then have "float32 ?v \<le> float32 (int j)" by (rule mono)
      with lt show False by simp
    qed
  next
    assume lt: "int j < ?v"
    show "float32 (int j) < float32 ?v"
    proof (cases "?v \<le> int maxlen")
      case True
      with lt have "float32 ?v = of_int ?v" by (intro exact) simp_all
      with fj lt show ?thesis by simp
    next
      case False
      then have "float32 (int maxlen) \<le> float32 ?v" by (intro mono) simp
      moreover have "float32 (int maxlen) = of_int (int maxlen)" by (intro exact) simp_all
      moreover from j have "(of_int (int j) :: real) < of_int (int maxlen)" by simp
      ultimately show ?thesis using fj by simp
    qed
  qed
  with m show ?thesis by simp
qed

lemma mask_of_length:
  "length (mask_of float32 maxlen valid_len) = length valid_len"
  "i < length valid_len \<Longrightarrow> length (mask_of float32 maxlen valid_len ! i) = maxlen"
  by (simp_all add: mask_of_def)

text \<open>
  C10. For a rank-2 input \<open>X\<close> with rows of length \<open>maxlen\<close> and one valid length
  per row, where \<^verbatim>\<open>float32\<close> keeps the order of the integers and represents
  \<open>0, ..., maxlen\<close> exactly, \<open>sequence_mask\<close> returns a tensor of the same shape whose entry
  \<open>(i, j)\<close> is \<open>X[i][j]\<close> when \<open>j < valid_len[i]\<close> and the replacement value
  otherwise; for a rank-3 input the same holds along the second axis: the vector
  at \<open>(i, j)\<close> is kept, or has every entry replaced.
\<close>

theorem sequence_mask_entries:
  assumes "length valid_len = length X" and "\<forall>row \<in> set X. length row = maxlen"
    and "length valid_len = length X3" and "\<forall>row \<in> set X3. length row = maxlen"
    and mono: "\<And>a b. a \<le> b \<Longrightarrow> float32 a \<le> float32 b"
    and exact: "\<And>k. 0 \<le> k \<Longrightarrow> k \<le> int maxlen \<Longrightarrow> float32 k = of_int k"
  shows "(\<exists>Y. sequence_mask float32 (Rank2 X) valid_len val = Inr (Rank2 Y)
            \<and> length Y = length X
            \<and> (\<forall>i < length X. length (Y ! i) = maxlen
                 \<and> (\<forall>j < maxlen. Y ! i ! j
                       = (if int j < valid_len ! i then X ! i ! j else val))))
       \<and> (\<exists>Y. sequence_mask float32 (Rank3 X3) valid_len val = Inr (Rank3 Y)
            \<and> length Y = length X3
            \<and> (\<forall>i < length X3. length (Y ! i) = maxlen
                 \<and> (\<forall>j < maxlen. Y ! i ! j
                       = (if int j < valid_len ! i then X3 ! i ! j
                          else replicate (length (X3 ! i ! j)) val))))"
proof (rule conjI)
  let ?mask = "mask_of float32 (shape1 X) valid_len"
  let ?Y = "map (\<lambda>(m, x). map (\<lambda>(b, e). if b then e else val) (zip m x)) (zip ?mask X)"
  have res: "sequence_mask float32 (Rank2 X) valid_len val = Inr (Rank2 ?Y)"
    using assms(1) by (simp add: broadcast0_def mask_of_length)
  have row: "length (?Y ! i) = maxlen
      \<and> (\<forall>j < maxlen. ?Y ! i ! j = (if int j < valid_len ! i then X ! i ! j else val))"
    if i: "i < length X" for i
  proof -
    from assms(2) i have s: "shape1 X = maxlen" by (rule shape1_rows)
    from assms(2) i have l: "length (X ! i) = maxlen" by simp
    from i assms(1) have iv: "i < length valid_len" by simp
    have yi: "?Y ! i = map (\<lambda>(b, e). if b then e else val) (zip (?mask ! i) (X ! i))"
      using i iv by (simp add: mask_of_length)
    have ml: "length (?mask ! i) = maxlen" using iv s by (simp add: mask_of_length)
    show ?thesis
    proof (intro conjI allI impI)
      show "length (?Y ! i) = maxlen" unfolding yi using ml l by simp
    next
      fix j assume j: "j < maxlen"
      have "?Y ! i ! j = (if ?mask ! i ! j then X ! i ! j else val)"
        unfolding yi using j ml l by simp
      also have "?mask ! i ! j \<longleftrightarrow> int j < valid_len ! i"
        unfolding s using mono exact iv j by (rule mask_of_nth)
      finally show "?Y ! i ! j = (if int j < valid_len ! i then X ! i ! j else val)" .
    qed
  qed
  show "\<exists>Y. sequence_mask float32 (Rank2 X) valid_len val = Inr (Rank2 Y)
          \<and> length Y = length X
          \<and> (\<forall>i < length X. length (Y ! i) = maxlen
               \<and> (\<forall>j < maxlen. Y ! i ! j = (if int j < valid_len ! i then X ! i ! j else val)))"
  proof (intro exI conjI)
    show "sequence_mask float32 (Rank2 X) valid_len val = Inr (Rank2 ?Y)" by (rule res)
    show "length ?Y = length X" using assms(1) by (simp add: mask_of_length)
    show "\<forall>i < length X. length (?Y ! i) = maxlen
        \<and> (\<forall>j < maxlen. ?Y ! i ! j = (if int j < valid_len ! i then X ! i ! j else val))"
      using row by blast
  qed
next
  let ?mask = "mask_of float32 (shape1 X3) valid_len"
  let ?Y = "map (\<lambda>(m, x). map (\<lambda>(b, vec). map (\<lambda>e. if b then e else val) vec) (zip m x))
              (zip ?mask X3)"
  have res: "sequence_mask float32 (Rank3 X3) valid_len val = Inr (Rank3 ?Y)"
    using assms(3) by (simp add: broadcast0_def mask_of_length)
  have row: "length (?Y ! i) = maxlen
      \<and> (\<forall>j < maxlen. ?Y ! i ! j
            = (if int j < valid_len ! i then X3 ! i ! j
               else replicate (length (X3 ! i ! j)) val))"
    if i: "i < length X3" for i
  proof -
    from assms(4) i have s: "shape1 X3 = maxlen" by (rule shape1_rows)
    from assms(4) i have l: "length (X3 ! i) = maxlen" by simp
    from i assms(3) have iv: "i < length valid_len" by simp
    have yi: "?Y ! i = map (\<lambda>(b, vec). map (\<lambda>e. if b then e else val) vec)
                         (zip (?mask ! i) (X3 ! i))"
      using i iv by (simp add: mask_of_length)
    have ml: "length (?mask ! i) = maxlen" using iv s by (simp add: mask_of_length)
    show ?thesis
    proof (intro conjI allI impI)
      show "length (?Y ! i) = maxlen" unfolding yi using ml l by simp
    next
      fix j assume j: "j < maxlen"
      have "?Y ! i ! j = map (\<lambda>e. if ?mask ! i ! j then e else val) (X3 ! i ! j)"
        unfolding yi using j ml l by simp
      also have "?mask ! i ! j \<longleftrightarrow> int j < valid_len ! i"
        unfolding s using mono exact iv j by (rule mask_of_nth)
      finally show "?Y ! i ! j
          = (if int j < valid_len ! i then X3 ! i ! j
             else replicate (length (X3 ! i ! j)) val)"
        by (simp add: map_replicate_const)
    qed
  qed
  show "\<exists>Y. sequence_mask float32 (Rank3 X3) valid_len val = Inr (Rank3 Y)
          \<and> length Y = length X3
          \<and> (\<forall>i < length X3. length (Y ! i) = maxlen
               \<and> (\<forall>j < maxlen. Y ! i ! j
                     = (if int j < valid_len ! i then X3 ! i ! j
                        else replicate (length (X3 ! i ! j)) val)))"
  proof (intro exI conjI)
    show "sequence_mask float32 (Rank3 X3) valid_len val = Inr (Rank3 ?Y)" by (rule res)
    show "length ?Y = length X3" using assms(3) by (simp add: mask_of_length)
    show "\<forall>i < length X3. length (?Y ! i) = maxlen
        \<and> (\<forall>j < maxlen. ?Y ! i ! j
              = (if int j < valid_len ! i then X3 ! i ! j
                 else replicate (length (X3 ! i ! j)) val))"
      using row by blast
  qed
qed

theorem sequence_mask_entries_witness:
  "length [1, 2 :: int] = length [[1, 2, 3], [4, 5, 6 :: int]]
   \<and> length [1, 2 :: int] = length [[[1, 1], [2, 2], [3, 3]], [[4, 4], [5, 5], [6, 6 :: int]]]
   \<and> sequence_mask of_int (Rank2 [[1, 2, 3], [4, 5, 6 :: int]]) [1, 2] 0
      = Inr (Rank2 [[1, 0, 0], [4, 5, 0]])
   \<and> sequence_mask of_int (Rank3 [[[1, 1], [2, 2], [3, 3]], [[4, 4], [5, 5], [6, 6 :: int]]])
        [1, 2] 0
      = Inr (Rank3 [[[1, 1], [0, 0], [0, 0]], [[4, 4], [5, 5], [0, 0]]])"
proof -
  have e2: "sequence_mask of_int (Rank2 [[1, 2, 3], [4, 5, 6 :: int]]) [1, 2] 0
      = Inr (Rank2 [[1, 0, 0], [4, 5, 0]])"
    by (simp add: broadcast0_def mask_of_def shape1_def upt_rec)
  have e3: "sequence_mask of_int (Rank3 [[[1, 1], [2, 2], [3, 3]], [[4, 4], [5, 5], [6, 6 :: int]]])
        [1, 2] 0
      = Inr (Rank3 [[[1, 1], [0, 0], [0, 0]], [[4, 4], [5, 5], [0, 0]]])"
    by (simp add: broadcast0_def mask_of_def shape1_def upt_rec)
  have mono: "\<And>a b :: int. a \<le> b \<Longrightarrow> (of_int a :: real) \<le> of_int b" by simp
  have exact: "\<And>k :: int. 0 \<le> k \<Longrightarrow> k \<le> int 3 \<Longrightarrow> (of_int k :: real) = of_int k" by simp
  have l2: "length [1, 2 :: int] = length [[1, 2, 3], [4, 5, 6 :: int]]" by simp
  have r2: "\<forall>row \<in> set [[1, 2, 3], [4, 5, 6 :: int]]. length row = 3" by simp
  have l3: "length [1, 2 :: int]
      = length [[[1, 1], [2, 2], [3, 3]], [[4, 4], [5, 5], [6, 6 :: int]]]" by simp
  have r3: "\<forall>row \<in> set [[[1, 1], [2, 2], [3, 3]], [[4, 4], [5, 5], [6, 6 :: int]]].
      length row = 3" by simp
  note t = sequence_mask_entries [OF l2 r2 l3 r3 mono exact, of 0]
  from t l2 l3 e2 e3 show ?thesis by (intro conjI)
qed

subsection \<open>Greedy decoding\<close>

text \<open>
  The loop from a state that has not predicted the end token yet: it makes at
  most \<open>n\<close> further calls, and fewer exactly when the end token is among the
  predictions before the last possible one.
\<close>

lemma decode_steps:
  assumes "eos \<notin> set (preds s)"
  shows "length (preds (decode nt argmax eos save n s)) \<le> length (preds s) + n
       \<and> (length (preds (decode nt argmax eos save n s)) < length (preds s) + n
            \<longleftrightarrow> eos \<in> set (take (length (preds s) + n - 1)
                              (preds (decode nt argmax eos save n s))))"
  using assms
proof (induction n arbitrary: s)
  case 0
  then show ?case by (auto dest: in_set_takeD)
next
  case (Suc n)
  obtain Y st aw where d: "decoder nt (dec_X s) (dec_state s) = (Y, st, aw)"
    by (cases "decoder nt (dec_X s) (dec_state s)") auto
  let ?s1 = "s\<lparr>dec_X := argmax Y, dec_state := st,
                attention_weight_seq :=
                  (if save then attention_weight_seq s @ [aw] else attention_weight_seq s),
                preds := preds s @ [argmax Y]\<rparr>"
  show ?case
  proof (cases "argmax Y = eos")
    case True
    then have r: "decode nt argmax eos save (Suc n) s = ?s1"
      by (simp add: d Let_def)
    show ?thesis
    proof (cases n)
      case 0
      with True Suc.prems show ?thesis unfolding r by simp
    next
      case (Suc m)
      with True show ?thesis unfolding r by simp
    qed
  next
    case False
    let ?s2 = "?s1\<lparr>output_seq := output_seq ?s1 @ [argmax Y]\<rparr>"
    from False have r: "decode nt argmax eos save (Suc n) s = decode nt argmax eos save n ?s2"
      by (simp add: d Let_def)
    from False Suc.prems have "eos \<notin> set (preds ?s2)" by simp
    from Suc.IH [OF this] show ?thesis unfolding r by simp
  qed
qed

text \<open>
  What the recorded predictions are in terms of the variables of the code: the
  loop only appends to them, the output sequence grows by the new predictions
  before the end token, and with \<open>save_attention_weights\<close> the list of attention
  weights grows by one entry per decoder call.
\<close>

lemma decode_outputs:
  "\<exists>new. preds (decode nt argmax eos save n s) = preds s @ new
     \<and> output_seq (decode nt argmax eos save n s)
         = output_seq s @ takeWhile (\<lambda>p. p \<noteq> eos) new
     \<and> (save \<longrightarrow> length (attention_weight_seq (decode nt argmax eos save n s))
           = length (attention_weight_seq s) + length new)"
proof (induction n arbitrary: s)
  case 0
  show ?case by simp
next
  case (Suc n)
  obtain Y st aw where d: "decoder nt (dec_X s) (dec_state s) = (Y, st, aw)"
    by (cases "decoder nt (dec_X s) (dec_state s)") auto
  let ?s1 = "s\<lparr>dec_X := argmax Y, dec_state := st,
                attention_weight_seq :=
                  (if save then attention_weight_seq s @ [aw] else attention_weight_seq s),
                preds := preds s @ [argmax Y]\<rparr>"
  show ?case
  proof (cases "argmax Y = eos")
    case True
    then have r: "decode nt argmax eos save (Suc n) s = ?s1"
      by (simp add: d Let_def)
    have "preds ?s1 = preds s @ [eos]
        \<and> output_seq ?s1 = output_seq s @ takeWhile (\<lambda>p. p \<noteq> eos) [eos]
        \<and> (save \<longrightarrow> length (attention_weight_seq ?s1)
              = length (attention_weight_seq s) + length [eos])"
      using True by simp
    then show ?thesis unfolding r by (rule exI)
  next
    case False
    let ?s2 = "?s1\<lparr>output_seq := output_seq ?s1 @ [argmax Y]\<rparr>"
    let ?r = "decode nt argmax eos save n ?s2"
    from False have r: "decode nt argmax eos save (Suc n) s = ?r"
      by (simp add: d Let_def)
    from Suc.IH [of ?s2] obtain new where
      p: "preds ?r = preds ?s2 @ new" and
      o: "output_seq ?r = output_seq ?s2 @ takeWhile (\<lambda>p. p \<noteq> eos) new" and
      a: "save \<longrightarrow> length (attention_weight_seq ?r)
            = length (attention_weight_seq ?s2) + length new"
      by blast
    have "preds ?r = preds s @ (argmax Y # new)
        \<and> output_seq ?r = output_seq s @ takeWhile (\<lambda>p. p \<noteq> eos) (argmax Y # new)
        \<and> (save \<longrightarrow> length (attention_weight_seq ?r)
              = length (attention_weight_seq s) + length (argmax Y # new))"
      using p o a False by simp
    then show ?thesis unfolding r by (rule exI)
  qed
qed

text \<open>
  C2 (as amended). \<open>predict_seq2seq\<close> makes at most \<open>num_steps\<close> decoder steps, and
  strictly fewer if and only if the decoder produces the end-of-sequence token
  at one of the steps before the last of the \<open>num_steps\<close>.
\<close>

theorem predict_seq2seq_steps:
  "length (preds (predict_loop nt argmax lower src src_vocab tgt_vocab num_steps save))
     \<le> nat num_steps
   \<and> (length (preds (predict_loop nt argmax lower src src_vocab tgt_vocab num_steps save))
        < nat num_steps
       \<longleftrightarrow> token_to_idx tgt_vocab ''<eos>''
             \<in> set (take (nat num_steps - 1)
                     (preds (predict_loop nt argmax lower src src_vocab tgt_vocab num_steps save))))"
proof -
  let ?s0 = "\<lparr>dec_X = token_to_idx tgt_vocab ''<bos>'',
              dec_state = init_state nt
                (encoder nt
                  (truncate_pad
                    (map (token_to_idx src_vocab) (split_on CHR '' '' (lower src))
                       @ [token_to_idx src_vocab ''<eos>''])
                    num_steps (token_to_idx src_vocab ''<pad>''))
                  (int (length (map (token_to_idx src_vocab) (split_on CHR '' '' (lower src))
                       @ [token_to_idx src_vocab ''<eos>'']))))
                (int (length (map (token_to_idx src_vocab) (split_on CHR '' '' (lower src))
                       @ [token_to_idx src_vocab ''<eos>'']))),
              output_seq = [], attention_weight_seq = [], preds = []\<rparr>"
  have "token_to_idx tgt_vocab ''<eos>'' \<notin> set (preds ?s0)" by simp
  from decode_steps [OF this, of nt argmax save "nat num_steps"]
  show ?thesis by (simp add: predict_loop_def Let_def)
qed

text \<open>
  The claim as stated fails when the end token first comes at the last step: with
  \<open>num_steps = 1\<close> and a decoder whose first prediction is the end token, one step
  is made, which is not fewer than \<open>num_steps\<close>, and the end token was produced.
\<close>

theorem predict_seq2seq_steps_counterexample:
  "\<not> (length (preds (predict_loop
          \<lparr>encoder = (\<lambda>x v. ()), init_state = (\<lambda>e v. ()), decoder = (\<lambda>x s. (3 :: int, (), ()))\<rparr>
          (\<lambda>y. y) (\<lambda>s. s) ''go''
          \<lparr>token_to_idx = (\<lambda>t. if t = ''<eos>'' then 3 else 0), idx_to_token = (\<lambda>i. ''x'')\<rparr>
          \<lparr>token_to_idx = (\<lambda>t. if t = ''<eos>'' then 3 else 0), idx_to_token = (\<lambda>i. ''x'')\<rparr>
          1 False)) < nat 1
       \<longleftrightarrow> (3 :: int) \<in> set (preds (predict_loop
          \<lparr>encoder = (\<lambda>x v. ()), init_state = (\<lambda>e v. ()), decoder = (\<lambda>x s. (3 :: int, (), ()))\<rparr>
          (\<lambda>y. y) (\<lambda>s. s) ''go''
          \<lparr>token_to_idx = (\<lambda>t. if t = ''<eos>'' then 3 else 0), idx_to_token = (\<lambda>i. ''x'')\<rparr>
          \<lparr>token_to_idx = (\<lambda>t. if t = ''<eos>'' then 3 else 0), idx_to_token = (\<lambda>i. ''x'')\<rparr>
          1 False)))"
  by (simp add: predict_loop_def Let_def)

theorem predict_seq2seq_steps_witness:
  "preds (predict_loop
      \<lparr>encoder = (\<lambda>x v. ()), init_state = (\<lambda>e v. (0 :: int)), decoder = (\<lambda>x s. (s, s + 1, ()))\<rparr>
      (\<lambda>y. y) (\<lambda>s. s) ''go''
      \<lparr>token_to_idx = (\<lambda>t. if t = ''<eos>'' then 2 else 0), idx_to_token = (\<lambda>i. ''x'')\<rparr>
      \<lparr>token_to_idx = (\<lambda>t. if t = ''<eos>'' then 2 else 0), idx_to_token = (\<lambda>i. ''x'')\<rparr>
      5 False) = [0, 1, 2]
   \<and> (2 :: int) \<in> set (take (nat 5 - 1) [0, 1, 2])
   \<and> length [0, 1, 2 :: int] < nat 5"
proof -
  let ?r = "predict_loop
      \<lparr>encoder = (\<lambda>x v. ()), init_state = (\<lambda>e v. (0 :: int)), decoder = (\<lambda>x s. (s, s + 1, ()))\<rparr>
      (\<lambda>y. y) (\<lambda>s. s) ''go''
      \<lparr>token_to_idx = (\<lambda>t. if t = ''<eos>'' then 2 else 0), idx_to_token = (\<lambda>i. ''x'')\<rparr>
      \<lparr>token_to_idx = (\<lambda>t. if t = ''<eos>'' then 2 else 0), idx_to_token = (\<lambda>i. ''x'')\<rparr>
      5 False"
  have e: "preds ?r = [0, 1, 2]"
    by (simp add: predict_loop_def Let_def eval_nat_numeral)
  from predict_seq2seq_steps [of
      "\<lparr>encoder = (\<lambda>x v. ()), init_state = (\<lambda>e v. (0 :: int)), decoder = (\<lambda>x s. (s, s + 1, ()))\<rparr>"
      "\<lambda>y. y" "\<lambda>s. s" "''go''"
      "\<lparr>token_to_idx = (\<lambda>t. if t = ''<eos>'' then 2 else 0), idx_to_token = (\<lambda>i. ''x'')\<rparr>"
      "\<lparr>token_to_idx = (\<lambda>t. if t = ''<eos>'' then 2 else 0), idx_to_token = (\<lambda>i. ''x'')\<rparr>"
      5 False]
  show ?thesis unfolding e by simp
qed

subsection \<open>Gradient clipping\<close>







end
